theory Spec2Isabelle
  imports Main "HOL-Library.Word"
begin

section \<open>FastCGIStream: chopping a byte stream on FastCGI record boundaries\<close>

text \<open>
  A shallow embedding of \<^verbatim>\<open>index.js\<close>. A Buffer is a list of bytes. The stream object
  is a record of its fields; every method takes the object and returns it updated. What
  the object emits (\<^verbatim>\<open>data\<close>, \<^verbatim>\<open>end\<close>, \<^verbatim>\<open>error\<close>) and the calls it makes on its
  producer are appended, in order, to the field \<open>events\<close>. A JavaScript exception is a
  value: a method that can throw returns a completion, \<open>Normal v\<close> or \<open>Throw e\<close>,
  beside the object as it stands at that moment.

  What the model takes for granted about the code around the stream:
  \<^item> the consumer listens to the three events (an \<^verbatim>\<open>error\<close> event without a listener
    would be thrown by the event emitter), and neither its listeners nor the producer's
    methods call back into the stream while one of its methods runs;
  \<^item> an optional method of the producer (\<^verbatim>\<open>pause\<close>, \<^verbatim>\<open>resume\<close>, \<^verbatim>\<open>destroy\<close>) is a
    function when it is present;
  \<^item> what is written is a Buffer or nothing.

  \<^verbatim>\<open>build_record\<close> calls itself once for every record it extracts, and each of these
  calls is nested in the one before. The call stack of the host bounds that nesting, so
  the methods that reach \<^verbatim>\<open>build_record\<close> take the parameter \<open>depth\<close>: the number of
  nested calls of \<^verbatim>\<open>build_record\<close> (each with the calls it makes to other functions) that
  the stack has room for when the method is called. The call beyond it throws the
  engine's RangeError. The value belongs to the host and to the caller, not to this file.

  \<^verbatim>\<open>normalize_data\<close> is left out: no method calls it, and it reads fields (\<^verbatim>\<open>feed\<close>,
  \<^verbatim>\<open>expect\<close>) that nothing sets.
\<close>

subsection \<open>Data\<close>

type_synonym byte = "8 word"
type_synonym buffer = "byte list"

text \<open>
  The exceptions: a TypeError (a property of \<^verbatim>\<open>undefined\<close> is read), the RangeError of a
  Buffer read out of bounds, the RangeError of a call that the call stack has no room
  for, a ReferenceError (an undeclared variable is read), and \<^verbatim>\<open>new Error(msg)\<close>.
\<close>

datatype js_error =
    TypeError
  | RangeError_index
  | RangeError_stack
  | ReferenceError
  | Error_msg string

datatype 'a completion = Normal 'a | Throw js_error

text \<open>The upstream producer: an identity and the optional methods it exposes.\<close>

record producer =
  prod_id :: nat
  has_pause :: bool
  has_resume :: bool
  has_destroy :: bool

text \<open>The value given to \<^verbatim>\<open>error\<close>: an Error object, with its \<^verbatim>\<open>source\<close> property.\<close>

datatype error_value = Already_have_a_pipe_source "producer option" | Other_error string

datatype event =
    Data buffer
  | End
  | Error error_value
  | Source_pause
  | Source_resume
  | Source_destroy

record header =
  version :: nat
  rec_type :: nat
  req_id :: nat
  body_len :: nat
  pad_len :: nat
  reserved :: nat

record framer =
  readable :: bool
  writable :: bool
  is_ending :: bool
  is_sending :: bool
  is_dead :: bool
  pending_data :: "buffer list"
  records :: "buffer list"
  source :: "producer option"
  pipe_seen :: bool
  events :: "event list"

text \<open>
  The constructor. \<open>is_dead\<close> is not set by the constructor (it reads as false until
  \<^verbatim>\<open>destroy\<close>); \<open>pipe_seen\<close> says that the \<^verbatim>\<open>once('pipe')\<close> handler has run, so that
  the \<^verbatim>\<open>on('pipe')\<close> handler it installs is the one that answers.
\<close>

definition FastCGIStream :: framer where
  "FastCGIStream =
     \<lparr> readable = True, writable = True, is_ending = False, is_sending = True,
       is_dead = False, pending_data = [], records = [], source = None,
       pipe_seen = False, events = [] \<rparr>"

definition emit :: "event \<Rightarrow> framer \<Rightarrow> framer" where
  "emit e s = s\<lparr>events := events s @ [e]\<rparr>"

subsection \<open>Buffers and the header\<close>

definition readUInt8 :: "buffer \<Rightarrow> nat \<Rightarrow> nat completion" where
  "readUInt8 chunk off =
     (if off < length chunk then Normal (unat (chunk ! off)) else Throw RangeError_index)"

definition readUInt16BE :: "buffer \<Rightarrow> nat \<Rightarrow> nat completion" where
  "readUInt16BE chunk off =
     (if off + 1 < length chunk
      then Normal (256 * unat (chunk ! off) + unat (chunk ! (off + 1)))
      else Throw RangeError_index)"

definition and_then :: "'a completion \<Rightarrow> ('a \<Rightarrow> 'b completion) \<Rightarrow> 'b completion" where
  "and_then c f = (case c of Normal v \<Rightarrow> f v | Throw e \<Rightarrow> Throw e)"

definition get_header :: "buffer \<Rightarrow> header completion" where
  "get_header chunk =
     and_then (readUInt8 chunk 0) (\<lambda>v.
     and_then (readUInt8 chunk 1) (\<lambda>t.
     and_then (readUInt16BE chunk 2) (\<lambda>r.
     and_then (readUInt16BE chunk 4) (\<lambda>b.
     and_then (readUInt8 chunk 6) (\<lambda>p.
     and_then (readUInt8 chunk 7) (\<lambda>z.
       Normal \<lparr> version = v, rec_type = t, req_id = r, body_len = b,
                pad_len = p, reserved = z \<rparr>))))))"

text \<open>
  \<^verbatim>\<open>new Buffer(n)\<close>: n bytes (their content is whatever the allocator left; zero here,
  and the copy loop overwrites every one of them).
\<close>

definition new_Buffer :: "nat \<Rightarrow> buffer" where
  "new_Buffer n = replicate n 0"

text \<open>
  \<^verbatim>\<open>src.copy(target, targetStart, sourceStart, sourceEnd)\<close>: the bytes
  \<open>sourceStart ..< sourceEnd\<close> of \<open>src\<close> overwrite \<open>target\<close> from \<open>targetStart\<close>, as many as
  fit.
\<close>

definition buf_copy :: "buffer \<Rightarrow> buffer \<Rightarrow> nat \<Rightarrow> nat \<Rightarrow> nat \<Rightarrow> buffer" where
  "buf_copy src target targetStart sourceStart sourceEnd =
     (let bytes = take (length target - targetStart)
                    (take (sourceEnd - sourceStart) (drop sourceStart src))
      in take targetStart target @ bytes @ drop (targetStart + length bytes) target)"

subsection \<open>emit_records\<close>

function emit_loop :: "framer \<Rightarrow> framer" where
  "emit_loop s =
     (if is_sending s \<and> length (records s) > 0
      then (case records s of
              record # rest \<Rightarrow> emit_loop (emit (Data record) (s\<lparr>records := rest\<rparr>))
            | [] \<Rightarrow> s)
      else s)"
  by pat_completeness auto
termination
  by (relation "measure (\<lambda>s. length (records s))") (auto simp: emit_def)

declare emit_loop.simps [simp del]

definition emit_records :: "framer \<Rightarrow> framer" where
  "emit_records s0 =
     (let s = emit_loop s0
      in if is_sending s \<and> is_ending s \<and> length (records s) = 0
         then emit End (s\<lparr>is_ending := False, readable := False\<rparr>)
         else s)"

subsection \<open>build_record\<close>

text \<open>
  The first loop: merge chunks at the front until the first holds a header. Its guard is
  \<open>merge_cond\<close>, its body \<open>merge_step\<close>: two \<^verbatim>\<open>shift()\<close>s, and the concatenation put
  back in front (the guard gives the body its two chunks).
\<close>

definition merge_cond :: "buffer list \<Rightarrow> bool" where
  "merge_cond pd = (length pd > 1 \<and> length (hd pd) < 8)"

definition merge_step :: "buffer list \<Rightarrow> buffer list" where
  "merge_step pd =
     (case pd of
        first_chunk # second_chunk # rest \<Rightarrow> (first_chunk @ second_chunk) # rest
      | _ \<Rightarrow> pd)"

function merge_front :: "buffer list \<Rightarrow> buffer list" where
  "merge_front pd = (if merge_cond pd then merge_front (merge_step pd) else pd)"
  by pat_completeness auto
termination
  by (relation "measure length")
     (auto simp: merge_cond_def merge_step_def split: list.splits)

declare merge_front.simps [simp del]

definition pending_bytes_of :: "buffer list \<Rightarrow> nat" where
  "pending_bytes_of pd = foldl (\<lambda>len buf. len + length buf) 0 pd"

text \<open>
  The second loop, on its local variables \<open>offset\<close> and \<open>record\<close> and on the pending
  chunks. One iteration is \<open>copy_step\<close>; \<^verbatim>\<open>shift()\<close> of an empty array gives
  \<^verbatim>\<open>undefined\<close>, whose \<^verbatim>\<open>length\<close> throws.
\<close>

type_synonym copy_state = "nat \<times> buffer \<times> buffer list"

definition copy_step :: "nat \<Rightarrow> copy_state \<Rightarrow> unit completion \<times> copy_state" where
  "copy_step record_bytes st =
     (case st of (offset, record, pd) \<Rightarrow>
        let bytes_needed = record_bytes - offset in
        (case pd of
           [] \<Rightarrow> (Throw TypeError, (offset, record, pd))
         | next_chunk # rest \<Rightarrow>
             if length next_chunk \<le> bytes_needed
             then (Normal (),
                   (offset + length next_chunk,
                    buf_copy next_chunk record offset 0 (length next_chunk),
                    rest))
             else (Normal (),
                   (offset + bytes_needed,
                    buf_copy next_chunk record offset 0 bytes_needed,
                    drop bytes_needed next_chunk # rest))))"

definition copy_measure :: "nat \<Rightarrow> copy_state \<Rightarrow> nat" where
  "copy_measure record_bytes st =
     (case st of (offset, record, pd) \<Rightarrow> (record_bytes - offset) + length pd)"

function copy_loop :: "nat \<Rightarrow> copy_state \<Rightarrow> unit completion \<times> copy_state" where
  "copy_loop record_bytes st =
     (if fst st < record_bytes
      then (case copy_step record_bytes st of
              (Normal u, st') \<Rightarrow> copy_loop record_bytes st'
            | (Throw e, st') \<Rightarrow> (Throw e, st'))
      else (Normal (), st))"
  by pat_completeness auto
termination
  by (relation "measure (\<lambda>(record_bytes, st). copy_measure record_bytes st)")
     (auto simp: copy_step_def copy_measure_def Let_def split: list.splits if_splits)

declare copy_loop.simps [simp del]

text \<open>Facts about the two loops that the recursion of \<open>build_record\<close> rests on.\<close>

lemma pending_bytes_foldl:
  "foldl (\<lambda>len buf. len + length buf) a pd = a + length (concat pd)"
  by (induction pd arbitrary: a) auto

lemma pending_bytes_of_concat: "pending_bytes_of pd = length (concat pd)"
  by (simp add: pending_bytes_of_def pending_bytes_foldl)

lemma concat_merge_step: "concat (merge_step pd) = concat pd"
  by (simp add: merge_step_def split: list.splits)

lemma concat_merge_front: "concat (merge_front pd) = concat pd"
proof (induction pd rule: merge_front.induct)
  case (1 pd)
  show ?case
  proof (cases "merge_cond pd")
    case True
    with 1 show ?thesis
      by (subst merge_front.simps) (simp add: concat_merge_step)
  next
    case False
    then show ?thesis
      by (subst merge_front.simps) simp
  qed
qed

lemma copy_step_bytes:
  assumes "copy_step record_bytes (offset, record, pd) = (Normal u, offset', record', pd')"
    and "offset < record_bytes"
  shows "offset' \<le> record_bytes
    \<and> length (concat pd') + (offset' - offset) = length (concat pd)"
  using assms
  by (auto simp: copy_step_def Let_def split: list.splits if_splits)

lemma copy_loop_bytes:
  assumes "copy_loop record_bytes st = (Normal u, st')" and "fst st \<le> record_bytes"
  shows "length (concat (snd (snd st'))) + (record_bytes - fst st)
    = length (concat (snd (snd st)))"
  using assms
proof (induction record_bytes st rule: copy_loop.induct)
  case (1 record_bytes st)
  show ?case
  proof (cases "fst st < record_bytes")
    case False
    then have "copy_loop record_bytes st = (Normal (), st)"
      by (subst copy_loop.simps) simp
    with "1.prems" False show ?thesis
      by auto
  next
    case True
    obtain c st1 where step: "copy_step record_bytes st = (c, st1)"
      by (cases "copy_step record_bytes st") auto
    have unfold: "copy_loop record_bytes st =
        (case c of Normal u \<Rightarrow> copy_loop record_bytes st1 | Throw e \<Rightarrow> (Throw e, st1))"
      using True step by (subst copy_loop.simps) simp
    with "1.prems"(1) obtain u1 where c: "c = Normal u1"
      and loop: "copy_loop record_bytes st1 = (Normal u, st')"
      by (cases c) auto
    obtain offset rcd pd where st: "st = (offset, rcd, pd)"
      by (cases st) auto
    obtain offset1 rcd1 pd1 where st1: "st1 = (offset1, rcd1, pd1)"
      by (cases st1) auto
    from copy_step_bytes [of record_bytes offset rcd pd u1 offset1 rcd1 pd1] step True
    have le: "offset1 \<le> record_bytes"
      and len: "length (concat pd1) + (offset1 - offset) = length (concat pd)"
      by (auto simp: st st1 c)
    have grow: "offset \<le> offset1"
      using step
      by (auto simp: st st1 c copy_step_def Let_def split: list.splits if_splits)
    from "1.IH" [OF True step [symmetric] c loop] le
    have "length (concat (snd (snd st'))) + (record_bytes - offset1) = length (concat pd1)"
      by (simp add: st1)
    with len le grow True show ?thesis
      by (simp add: st)
  qed
qed

text \<open>
  \<^verbatim>\<open>build_record\<close>, with room for \<open>depth\<close> nested calls of itself: with no room the call
  throws; the call it makes on itself has one less. \<^verbatim>\<open>get_header(this.pending_data[0])\<close>
  on an empty array would read a property of \<^verbatim>\<open>undefined\<close>, which throws.
\<close>

function build_record :: "nat \<Rightarrow> framer \<Rightarrow> unit completion \<times> framer" where
  "build_record 0 s0 = (Throw RangeError_stack, s0)"
| "build_record (Suc depth) s0 =
     (let s = s0\<lparr>pending_data := merge_front (pending_data s0)\<rparr>;
          pending_bytes = pending_bytes_of (pending_data s)
      in if pending_bytes < 8 then (Normal (), emit_records s)
         else
           (case pending_data s of
              [] \<Rightarrow> (Throw TypeError, s)
            | first # others \<Rightarrow>
                (case get_header first of
                   Throw e \<Rightarrow> (Throw e, s)
                 | Normal header \<Rightarrow>
                     let record_bytes = 8 + body_len header + pad_len header in
                     if pending_bytes < record_bytes then (Normal (), emit_records s)
                     else
                       (case copy_loop record_bytes
                               (0, new_Buffer record_bytes, pending_data s) of
                          (Throw e, (offset, record, pd)) \<Rightarrow>
                            (Throw e, s\<lparr>pending_data := pd\<rparr>)
                        | (Normal u, (offset, record, pd)) \<Rightarrow>
                            build_record depth
                              (s\<lparr>pending_data := pd, records := records s @ [record]\<rparr>)))))"
  by pat_completeness auto

text \<open>
  The recursion is well-founded by the pending bytes alone, whatever the room on the
  stack: every call it makes has at least 8 bytes fewer to look at.
\<close>

termination
proof (relation "measure (\<lambda>(depth, s). length (concat (pending_data s)))", goal_cases)
  case 1
  show ?case by simp
next
  case (2 depth s0 s pending_bytes first others header record_bytes res c u offset rest rcd pd)
  from 2 have loop: "copy_loop record_bytes (0, new_Buffer record_bytes, pending_data s)
      = (Normal u, offset, rcd, pd)"
    by (metis)
  from copy_loop_bytes [OF loop]
  have "length (concat pd) + record_bytes = length (concat (pending_data s))"
    by simp
  moreover from 2 have "8 \<le> record_bytes"
    by simp
  moreover have "concat (pending_data s) = concat (pending_data s0)"
  proof -
    from 2 have "pending_data s = merge_front (pending_data s0)"
      by simp
    then show ?thesis
      by (simp only: concat_merge_front)
  qed
  ultimately show ?case
    by simp
qed

declare build_record.simps [simp del]

subsection \<open>The stream API\<close>

definition pause :: "framer \<Rightarrow> framer" where
  "pause s0 =
     (let s = s0\<lparr>is_sending := False\<rparr>
      in case source s of
           Some src \<Rightarrow> if has_pause src then emit Source_pause s else s
         | None \<Rightarrow> s)"

definition resume :: "framer \<Rightarrow> framer" where
  "resume s0 =
     (let s = s0\<lparr>is_sending := True\<rparr>;
          s1 = (case source s of
                  Some src \<Rightarrow> if has_resume src then emit Source_resume s else s
                | None \<Rightarrow> s)
      in emit_records s1)"

text \<open>
  \<^verbatim>\<open>write(data)\<close>, named \<open>write_data\<close> here. \<open>None\<close> is an absent chunk; a
  Buffer, even an empty one, is truthy.
\<close>

definition write_data :: "nat \<Rightarrow> buffer option \<Rightarrow> framer \<Rightarrow> bool completion \<times> framer" where
  "write_data depth data s0 =
     (let s = (case data of
                 Some d \<Rightarrow> s0\<lparr>pending_data := pending_data s0 @ [d]\<rparr>
               | None \<Rightarrow> s0)
      in case build_record depth s of
           (Throw e, s1) \<Rightarrow> (Throw e, s1)
         | (Normal u, s1) \<Rightarrow> (Normal (\<not> is_ending s1), s1))"

text \<open>
  \<^verbatim>\<open>end(data)\<close>. After the write, the branch for leftover chunks reads the variable
  \<^verbatim>\<open>self\<close>, which this function does not declare: evaluating it throws a ReferenceError.
\<close>

definition end_stream :: "nat \<Rightarrow> buffer option \<Rightarrow> framer \<Rightarrow> unit completion \<times> framer" where
  "end_stream depth data s0 =
     (let s = s0\<lparr>is_ending := True, writable := False\<rparr>
      in case write_data depth data s of
           (Throw e, s1) \<Rightarrow> (Throw e, s1)
         | (Normal b, s1) \<Rightarrow>
             if length (pending_data s1) > 0 then (Throw ReferenceError, s1)
             else (Normal (), s1))"

definition destroy :: "framer \<Rightarrow> framer" where
  "destroy s0 =
     (let s = s0\<lparr>is_dead := True, is_ending := False, is_sending := False\<rparr>
      in case source s of
           Some src \<Rightarrow> if has_destroy src then emit Source_destroy s else s
         | None \<Rightarrow> s)"

definition setEncoding :: "framer \<Rightarrow> unit completion \<times> framer" where
  "setEncoding s = (Throw (Error_msg ''setEncoding not allowed, only Buffer is supported''), s)"

definition destroySoon :: "framer \<Rightarrow> unit completion \<times> framer" where
  "destroySoon s = (Throw (Error_msg ''not implemented''), s)"

definition error :: "error_value \<Rightarrow> framer \<Rightarrow> bool \<times> framer" where
  "error er s = (False, emit (Error er) (s\<lparr>readable := False, writable := False\<rparr>))"

text \<open>
  A \<^verbatim>\<open>pipe\<close> event with producer \<open>src\<close>. The first one runs the \<^verbatim>\<open>once\<close> handler, which
  installs the second handler; every later one runs the second handler only.
\<close>

definition on_pipe :: "producer \<Rightarrow> framer \<Rightarrow> framer" where
  "on_pipe src s =
     (if \<not> pipe_seen s then s\<lparr>source := Some src, pipe_seen := True\<rparr>
      else snd (error (Already_have_a_pipe_source (source s)) s))"

subsection \<open>Sequences of calls\<close>

datatype call =
    Write "buffer option"
  | End_stream "buffer option"
  | Pause
  | Resume
  | Destroy
  | SetEncoding
  | DestroySoon
  | Pipe producer

text \<open>
  One call by a caller that goes on after an exception: the object is what remains. Each
  call starts with the same room on the stack.
\<close>

fun do_call :: "nat \<Rightarrow> call \<Rightarrow> framer \<Rightarrow> framer" where
  "do_call depth (Write data) s = snd (write_data depth data s)"
| "do_call depth (End_stream data) s = snd (end_stream depth data s)"
| "do_call depth Pause s = pause s"
| "do_call depth Resume s = resume s"
| "do_call depth Destroy s = destroy s"
| "do_call depth SetEncoding s = snd (setEncoding s)"
| "do_call depth DestroySoon s = snd (destroySoon s)"
| "do_call depth (Pipe src) s = on_pipe src s"

fun run :: "nat \<Rightarrow> call list \<Rightarrow> framer \<Rightarrow> framer" where
  "run depth [] s = s"
| "run depth (c # cs) s = run depth cs (do_call depth c s)"

text \<open>Writing a list of chunks, one \<^verbatim>\<open>write\<close> each.\<close>

fun write_all :: "nat \<Rightarrow> buffer list \<Rightarrow> framer \<Rightarrow> framer" where
  "write_all depth [] s = s"
| "write_all depth (c # cs) s = write_all depth cs (snd (write_data depth (Some c) s))"

subsection \<open>Auxiliary functions for stating properties\<close>

text \<open>The bytes of the argument of \<^verbatim>\<open>write\<close> or \<^verbatim>\<open>end\<close>: none when it is absent.\<close>

definition data_bytes :: "buffer option \<Rightarrow> buffer" where
  "data_bytes data = (case data of Some d \<Rightarrow> d | None \<Rightarrow> [])"

text \<open>The unconsumed input once \<open>data\<close> is appended: what is pending, then \<open>data\<close>.\<close>

definition wire :: "buffer option \<Rightarrow> framer \<Rightarrow> buffer" where
  "wire data s = concat (pending_data s) @ data_bytes data"

text \<open>The \<^verbatim>\<open>error\<close> events, and the events that deliver to the consumer.\<close>

fun is_error_event :: "event \<Rightarrow> bool" where
  "is_error_event (Error er) = True"
| "is_error_event e = False"

fun is_delivery :: "event \<Rightarrow> bool" where
  "is_delivery (Data r) = True"
| "is_delivery End = True"
| "is_delivery e = False"

text \<open>
  The calls of \<^verbatim>\<open>end\<close> in a sequence, the \<^verbatim>\<open>end\<close> events emitted so far, and these
  with the one that is due when ending is set.
\<close>

fun is_end_call :: "call \<Rightarrow> bool" where
  "is_end_call (End_stream data) = True"
| "is_end_call c = False"

definition end_signals :: "framer \<Rightarrow> nat" where
  "end_signals s = length (filter (\<lambda>e. e = End) (events s))"

definition ends_due :: "framer \<Rightarrow> nat" where
  "ends_due s = end_signals s + (if is_ending s then 1 else 0)"

text \<open>
  The call on the producer that \<^verbatim>\<open>pause\<close>, \<^verbatim>\<open>resume\<close> and \<^verbatim>\<open>destroy\<close> make:
  one call when a producer is attached and has the method, none otherwise.
\<close>

definition producer_call ::
  "producer option \<Rightarrow> (producer \<Rightarrow> bool) \<Rightarrow> event \<Rightarrow> event list" where
  "producer_call src has e =
     (case src of Some p \<Rightarrow> if has p then [e] else [] | None \<Rightarrow> [])"

section \<open>The record format of the specification\<close>

text \<open>
  These definitions follow the specification's data model, not the code: a record is an
  8-byte header, whose bytes 4 and 5 are the content length (big-endian) and whose
  byte 6 is the padding length, followed by that many payload and padding bytes.
  \<open>spec_frames\<close> cuts a flat byte sequence into its complete records and the bytes left
  over.
\<close>

definition spec_content_length :: "buffer \<Rightarrow> nat" where
  "spec_content_length bs = 256 * unat (bs ! 4) + unat (bs ! 5)"

definition spec_padding_length :: "buffer \<Rightarrow> nat" where
  "spec_padding_length bs = unat (bs ! 6)"

definition spec_record_length :: "buffer \<Rightarrow> nat" where
  "spec_record_length bs = 8 + spec_content_length bs + spec_padding_length bs"

definition valid_record :: "buffer \<Rightarrow> bool" where
  "valid_record r = (8 \<le> length r \<and> length r = spec_record_length r)"

function spec_frames :: "buffer \<Rightarrow> buffer list \<times> buffer" where
  "spec_frames bs =
     (if length bs < 8 \<or> length bs < spec_record_length bs then ([], bs)
      else (case spec_frames (drop (spec_record_length bs) bs) of
              (rs, rest) \<Rightarrow> (take (spec_record_length bs) bs # rs, rest)))"
  by pat_completeness auto
termination
  by (relation "measure length") (auto simp: spec_record_length_def)

declare spec_frames.simps [simp del]

text \<open>
  A record written out from its parts, as the specification's data model lays it out;
  the two-byte request id is given by its bytes.
\<close>

definition spec_serialize ::
  "byte \<Rightarrow> byte \<Rightarrow> byte \<Rightarrow> byte \<Rightarrow> byte \<Rightarrow> buffer \<Rightarrow> buffer \<Rightarrow> buffer" where
  "spec_serialize ver typ id_hi id_lo resv payload padding =
     [ver, typ, id_hi, id_lo,
      of_nat (length payload div 256), of_nat (length payload mod 256),
      of_nat (length padding), resv] @ payload @ padding"

subsection \<open>Example inputs\<close>

text \<open>
  Two stdin records (type 5: two bytes of content and one of padding; no content) and a
  stdout record (type 6), all of request 1; a producer with all three optional methods
  and one with none; a call stack with room for 8000 nested calls.
\<close>

definition example_record_1 :: buffer where
  "example_record_1 = [1, 5, 0, 1, 0, 2, 1, 0, 104, 105, 0]"

definition example_record_2 :: buffer where
  "example_record_2 = [1, 5, 0, 1, 0, 0, 0, 0]"

definition example_record_3 :: buffer where
  "example_record_3 = [1, 6, 0, 1, 0, 1, 0, 0, 33]"

definition example_stack_room :: nat where
  "example_stack_room = 8000"

definition example_producer_1 :: producer where
  "example_producer_1 =
     \<lparr> prod_id = 1, has_pause = True, has_resume = True, has_destroy = True \<rparr>"

definition example_producer_2 :: producer where
  "example_producer_2 =
     \<lparr> prod_id = 2, has_pause = False, has_resume = False, has_destroy = False \<rparr>"

section \<open>What the loops and the methods compute\<close>

lemma emit_loop_eq:
  "emit_loop s =
     (if is_sending s then s\<lparr>records := [], events := events s @ map Data (records s)\<rparr>
      else s)"
proof (induction s rule: emit_loop.induct)
  case (1 s)
  show ?case
  proof (cases "is_sending s \<and> records s \<noteq> []")
    case False
    then show ?thesis
      by (subst emit_loop.simps) auto
  next
    case True
    then obtain r rest where rs: "records s = r # rest"
      by (cases "records s") auto
    from True rs have "emit_loop s = emit_loop (emit (Data r) (s\<lparr>records := rest\<rparr>))"
      by (subst emit_loop.simps) simp
    also from "1.IH" [of r rest] True rs
    have "\<dots> = s\<lparr>records := [], events := events s @ map Data (records s)\<rparr>"
      by (simp add: emit_def)
    finally show ?thesis
      using True by simp
  qed
qed

lemma emit_records_eq:
  "emit_records s =
     (if is_sending s
      then (if is_ending s
            then s\<lparr>records := [], events := events s @ map Data (records s) @ [End],
                   is_ending := False, readable := False\<rparr>
            else s\<lparr>records := [], events := events s @ map Data (records s)\<rparr>)
      else s)"
  by (simp add: emit_records_def emit_loop_eq emit_def Let_def)

lemma merge_front_header:
  "8 \<le> length (concat pd) \<Longrightarrow>
     \<exists>first others. merge_front pd = first # others \<and> 8 \<le> length first"
proof (induction pd rule: merge_front.induct)
  case (1 pd)
  show ?case
  proof (cases "merge_cond pd")
    case True
    with 1 show ?thesis
      by (subst merge_front.simps) (simp add: concat_merge_step)
  next
    case False
    then have mf: "merge_front pd = pd"
      by (subst merge_front.simps) simp
    from "1.prems" obtain a rest where pd: "pd = a # rest"
      by (cases pd) auto
    with False "1.prems" have "8 \<le> length a"
      by (cases rest) (auto simp: merge_cond_def)
    with mf pd show ?thesis
      by simp
  qed
qed

lemma buf_copy_in_range:
  "offset + n \<le> length target \<Longrightarrow> n \<le> length src \<Longrightarrow>
     buf_copy src target offset 0 n = take offset target @ take n src @ drop (offset + n) target"
proof -
  assume a: "offset + n \<le> length target" and b: "n \<le> length src"
  then have "take (length target - offset) (take n src) = take n src"
    by simp
  moreover from b have "length (take n src) = n"
    by simp
  ultimately show ?thesis
    by (simp add: buf_copy_def Let_def del: take_take length_take)
qed

lemma copy_step_ok:
  assumes "offset < record_bytes" and "length rcd = record_bytes"
    and "record_bytes - offset \<le> length (concat pd)"
  shows "\<exists>offset' pd'. copy_step record_bytes (offset, rcd, pd) =
        (Normal (), offset',
         take offset rcd @ take (offset' - offset) (concat pd) @ drop offset' rcd, pd')
      \<and> offset \<le> offset' \<and> offset' \<le> record_bytes
      \<and> concat pd' = drop (offset' - offset) (concat pd)
      \<and> (record_bytes - offset') + length pd' < (record_bytes - offset) + length pd
      \<and> (pd' = tl pd \<or> offset' = record_bytes)"
proof (cases pd)
  case Nil
  with assms show ?thesis by simp
next
  case (Cons next_chunk rest)
  show ?thesis
  proof (cases "length next_chunk \<le> record_bytes - offset")
    case True
    with assms Cons show ?thesis
      by (auto simp add: copy_step_def Let_def buf_copy_in_range)
  next
    case False
    with assms Cons show ?thesis
      by (auto simp add: copy_step_def Let_def buf_copy_in_range)
  qed
qed

lemma copy_loop_ok:
  assumes "offset \<le> record_bytes" and "length rcd = record_bytes"
    and "record_bytes - offset \<le> length (concat pd)"
  shows "\<exists>pd'. copy_loop record_bytes (offset, rcd, pd) =
        (Normal (), record_bytes,
         take offset rcd @ take (record_bytes - offset) (concat pd), pd')
      \<and> concat pd' = drop (record_bytes - offset) (concat pd)"
  using assms
proof (induction record_bytes "(offset, rcd, pd)" arbitrary: offset rcd pd
    rule: copy_loop.induct)
  case (1 record_bytes)
  show ?case
  proof (cases "offset < record_bytes")
    case False
    with "1.prems" have eq: "offset = record_bytes"
      by simp
    have "copy_loop record_bytes (offset, rcd, pd) = (Normal (), offset, rcd, pd)"
      using False by (subst copy_loop.simps) simp
    with eq "1.prems" show ?thesis
      by simp
  next
    case True
    from copy_step_ok [OF True "1.prems"(2,3)]
    obtain offset' pd' where
      step: "copy_step record_bytes (offset, rcd, pd) =
        (Normal (), offset',
         take offset rcd @ take (offset' - offset) (concat pd) @ drop offset' rcd, pd')"
      and ge: "offset \<le> offset'" and le: "offset' \<le> record_bytes"
      and rest: "concat pd' = drop (offset' - offset) (concat pd)"
      by blast
    let ?rcd' = "take offset rcd @ take (offset' - offset) (concat pd) @ drop offset' rcd"
    have len: "length ?rcd' = record_bytes"
      using "1.prems" ge le by auto
    have need: "record_bytes - offset' \<le> length (concat pd')"
      using "1.prems" ge le rest by auto
    have unfold: "copy_loop record_bytes (offset, rcd, pd) =
        copy_loop record_bytes (offset', ?rcd', pd')"
      using True step by (subst copy_loop.simps) simp
    from "1.hyps" [OF _ step [symmetric] refl le len need] True
    obtain pd'' where
      loop: "copy_loop record_bytes (offset', ?rcd', pd') =
        (Normal (), record_bytes,
         take offset' ?rcd' @ take (record_bytes - offset') (concat pd'), pd'')"
      and rest': "concat pd'' = drop (record_bytes - offset') (concat pd')"
      by auto
    have "take offset' ?rcd' @ take (record_bytes - offset') (concat pd')
        = take offset rcd @ take (record_bytes - offset) (concat pd)"
    proof -
      have a: "take offset' ?rcd' = take offset rcd @ take (offset' - offset) (concat pd)"
        using "1.prems" ge le by (auto simp: min_def)
      have b: "take (offset' - offset) (concat pd) @ take (record_bytes - offset') (concat pd')
          = take (record_bytes - offset) (concat pd)"
        using ge le rest
        by (metis Nat.add_diff_assoc2 add_diff_inverse_nat diff_is_0_eq' less_irrefl_nat
            nat_le_linear take_add zero_less_diff)
      show ?thesis
        using a b by simp
    qed
    moreover have "concat pd'' = drop (record_bytes - offset) (concat pd)"
      using rest rest' ge le by (simp add: add.commute)
    ultimately show ?thesis
      using unfold loop by simp
  qed
qed


lemma get_header_eq:
  "get_header chunk =
     (if length chunk < 8 then Throw RangeError_index
      else Normal \<lparr> version = unat (chunk ! 0), rec_type = unat (chunk ! 1),
                    req_id = 256 * unat (chunk ! 2) + unat (chunk ! 3),
                    body_len = spec_content_length chunk,
                    pad_len = spec_padding_length chunk,
                    reserved = unat (chunk ! 7) \<rparr>)"
  by (simp add: get_header_def and_then_def readUInt8_def readUInt16BE_def
      spec_content_length_def spec_padding_length_def)

lemma spec_record_length_append:
  "8 \<le> length a \<Longrightarrow> spec_record_length (a @ b) = spec_record_length a"
  by (simp add: spec_record_length_def spec_content_length_def spec_padding_length_def
      nth_append)

lemma valid_record_serialize:
  assumes "length payload \<le> 65535" and "length padding \<le> 255"
  shows "valid_record (spec_serialize ver typ id_hi id_lo resv payload padding)"
proof -
  from assms(1) have hi: "length payload div 256 < 256"
    by simp
  have "unat (of_nat (length payload div 256) :: byte) = length payload div 256"
    using hi by (simp add: unat_of_nat)
  moreover have "unat (of_nat (length payload mod 256) :: byte) = length payload mod 256"
    by (simp add: unat_of_nat)
  moreover have "unat (of_nat (length padding) :: byte) = length padding"
    using assms(2) by (simp add: unat_of_nat)
  ultimately show ?thesis
    by (simp add: valid_record_def spec_serialize_def spec_record_length_def
        spec_content_length_def spec_padding_length_def)
qed

lemma spec_frames_short:
  "length bs < 8 \<or> length bs < spec_record_length bs \<Longrightarrow> spec_frames bs = ([], bs)"
  by (subst spec_frames.simps) simp

lemma spec_frames_step:
  "8 \<le> length bs \<Longrightarrow> spec_record_length bs \<le> length bs \<Longrightarrow>
     spec_frames bs =
       (take (spec_record_length bs) bs # fst (spec_frames (drop (spec_record_length bs) bs)),
        snd (spec_frames (drop (spec_record_length bs) bs)))"
  by (subst spec_frames.simps) (simp add: split_beta)

lemma spec_frames_rest:
  "spec_frames (snd (spec_frames bs)) = ([], snd (spec_frames bs))"
proof (induction bs rule: spec_frames.induct)
  case (1 bs)
  show ?case
  proof (cases "length bs < 8 \<or> length bs < spec_record_length bs")
    case True
    then show ?thesis
      by (simp add: spec_frames_short)
  next
    case False
    with 1 show ?thesis
      by (simp add: spec_frames_step)
  qed
qed

lemma spec_frames_lossless:
  "concat (fst (spec_frames bs)) @ snd (spec_frames bs) = bs"
proof (induction bs rule: spec_frames.induct)
  case (1 bs)
  show ?case
  proof (cases "length bs < 8 \<or> length bs < spec_record_length bs")
    case True
    then show ?thesis
      by (simp add: spec_frames_short)
  next
    case False
    with 1 show ?thesis
      by (simp add: spec_frames_step)
  qed
qed

lemma spec_frames_append:
  "spec_frames (a @ b) =
     (fst (spec_frames a) @ fst (spec_frames (snd (spec_frames a) @ b)),
      snd (spec_frames (snd (spec_frames a) @ b)))"
proof (induction a rule: spec_frames.induct)
  case (1 a)
  show ?case
  proof (cases "length a < 8 \<or> length a < spec_record_length a")
    case True
    then show ?thesis
      by (simp add: spec_frames_short)
  next
    case False
    then have len: "8 \<le> length a" and full: "spec_record_length a \<le> length a"
      by auto
    let ?n = "spec_record_length a"
    have n: "spec_record_length (a @ b) = ?n"
      using len by (rule spec_record_length_append)
    have "spec_frames (a @ b) =
        (take ?n a # fst (spec_frames (drop ?n a @ b)), snd (spec_frames (drop ?n a @ b)))"
      using len full by (subst spec_frames_step) (simp_all add: n)
    moreover from "1.IH" False
    have "spec_frames (drop ?n a @ b) =
        (fst (spec_frames (drop ?n a)) @ fst (spec_frames (snd (spec_frames (drop ?n a)) @ b)),
         snd (spec_frames (snd (spec_frames (drop ?n a)) @ b)))"
      by simp
    ultimately show ?thesis
      using len full by (simp add: spec_frames_step [of a])
  qed
qed

lemma spec_frames_valid:
  assumes "valid_record r"
  shows "spec_frames (r @ b) = (r # fst (spec_frames b), snd (spec_frames b))"
proof -
  from assms have len: "8 \<le> length r" and full: "spec_record_length r = length r"
    by (simp_all add: valid_record_def)
  then have "spec_frames r = ([r], [])"
    by (simp add: spec_frames_step spec_frames_short)
  then show ?thesis
    by (simp add: spec_frames_append [of r b])
qed


lemma spec_frames_Nil: "spec_frames [] = ([], [])"
  by (simp add: spec_frames_short)


lemma build_record_stop:
  assumes "length (concat (pending_data s)) < 8
    \<or> length (concat (pending_data s)) < spec_record_length (concat (pending_data s))"
  shows "build_record (Suc depth) s =
    (Normal (), emit_records (s\<lparr>pending_data := merge_front (pending_data s)\<rparr>))"
proof -
  let ?bs = "concat (pending_data s)"
  let ?s = "s\<lparr>pending_data := merge_front (pending_data s)\<rparr>"
  have bytes: "pending_bytes_of (pending_data ?s) = length ?bs"
    by (simp add: pending_bytes_of_concat concat_merge_front)
  show ?thesis
  proof (cases "length ?bs < 8")
    case True
    then show ?thesis
      using bytes by (subst build_record.simps) (simp add: Let_def)
  next
    case False
    then obtain first others where mf: "merge_front (pending_data s) = first # others"
      and first: "8 \<le> length first"
      using merge_front_header [of "pending_data s"] by auto
    have cat: "?bs = first @ concat others"
      using concat_merge_front [of "pending_data s"] mf by simp
    obtain h where hdr: "get_header first = Normal h"
      and n: "8 + body_len h + pad_len h = spec_record_length ?bs"
      using first cat
      by (simp add: get_header_eq spec_record_length_append) (simp add: spec_record_length_def)
    from assms False have "length ?bs < spec_record_length ?bs"
      by simp
    then show ?thesis
      using False bytes mf hdr n
      by (subst build_record.simps) (simp add: Let_def)
  qed
qed

lemma build_record_step:
  assumes "8 \<le> length (concat (pending_data s))"
    and "spec_record_length (concat (pending_data s)) \<le> length (concat (pending_data s))"
  shows "\<exists>h pd1. get_header (hd (merge_front (pending_data s))) = Normal h
      \<and> 8 + body_len h + pad_len h = spec_record_length (concat (pending_data s))
      \<and> copy_loop (spec_record_length (concat (pending_data s)))
          (0, new_Buffer (spec_record_length (concat (pending_data s))),
           merge_front (pending_data s)) =
        (Normal (), spec_record_length (concat (pending_data s)),
         take (spec_record_length (concat (pending_data s))) (concat (pending_data s)), pd1)
      \<and> concat pd1 = drop (spec_record_length (concat (pending_data s))) (concat (pending_data s))
      \<and> build_record (Suc depth) s =
          build_record depth (s\<lparr>pending_data := pd1,
            records := records s
              @ [take (spec_record_length (concat (pending_data s))) (concat (pending_data s))]\<rparr>)"
proof -
  let ?bs = "concat (pending_data s)"
  let ?s = "s\<lparr>pending_data := merge_front (pending_data s)\<rparr>"
  let ?n = "spec_record_length ?bs"
  have bytes: "pending_bytes_of (pending_data ?s) = length ?bs"
    by (simp add: pending_bytes_of_concat concat_merge_front)
  from assms(1) obtain first others where mf: "merge_front (pending_data s) = first # others"
    and first: "8 \<le> length first"
    using merge_front_header [of "pending_data s"] by auto
  have cat: "?bs = first @ concat others"
    using concat_merge_front [of "pending_data s"] mf by simp
  obtain h where hdr: "get_header first = Normal h" and n: "8 + body_len h + pad_len h = ?n"
    using first cat
    by (simp add: get_header_eq spec_record_length_append) (simp add: spec_record_length_def)
  have "\<exists>pd'. copy_loop ?n (0, new_Buffer ?n, merge_front (pending_data s)) =
      (Normal (), ?n,
       take 0 (new_Buffer ?n) @ take (?n - 0) (concat (merge_front (pending_data s))), pd')
      \<and> concat pd' = drop (?n - 0) (concat (merge_front (pending_data s)))"
    using assms(2) by (intro copy_loop_ok) (simp_all add: new_Buffer_def concat_merge_front)
  then obtain pd1 where
    loop: "copy_loop ?n (0, new_Buffer ?n, merge_front (pending_data s)) =
      (Normal (), ?n, take ?n ?bs, pd1)"
    and rest: "concat pd1 = drop ?n ?bs"
    by (auto simp: concat_merge_front)
  have "build_record (Suc depth) s =
      build_record depth (s\<lparr>pending_data := pd1, records := records s @ [take ?n ?bs]\<rparr>)"
    using assms bytes mf hdr n loop
    by (subst build_record.simps) (simp add: Let_def)
  with hdr n loop rest mf show ?thesis
    by auto
qed

text \<open>
  What \<open>build_record\<close> does, in one equation: with room on the stack for more nested
  calls than there are complete records pending, it queues them all and drains; with
  less, it queues as many as there is room for and throws, without draining.
\<close>

lemma build_record_eq:
  "\<exists>pd'. concat pd' =
        concat (drop depth (fst (spec_frames (concat (pending_data s)))))
          @ snd (spec_frames (concat (pending_data s)))
     \<and> build_record depth s =
       (if length (fst (spec_frames (concat (pending_data s)))) < depth
        then (Normal (),
              emit_records (s\<lparr>pending_data := pd',
                records := records s @ fst (spec_frames (concat (pending_data s)))\<rparr>))
        else (Throw RangeError_stack,
              s\<lparr>pending_data := pd',
                records := records s
                  @ take depth (fst (spec_frames (concat (pending_data s))))\<rparr>))"
proof (induction depth arbitrary: s)
  case 0
  show ?case
    by (intro exI [of _ "pending_data s"])
      (simp add: spec_frames_lossless build_record.simps(1))
next
  case (Suc depth)
  let ?bs = "concat (pending_data s)"
  let ?n = "spec_record_length ?bs"
  show ?case
  proof (cases "length ?bs < 8 \<or> length ?bs < ?n")
    case True
    then have "build_record (Suc depth) s =
        (Normal (), emit_records (s\<lparr>pending_data := merge_front (pending_data s)\<rparr>))"
      by (rule build_record_stop)
    moreover have "spec_frames ?bs = ([], ?bs)"
      using True by (rule spec_frames_short)
    ultimately show ?thesis
      by (intro exI [of _ "merge_front (pending_data s)"]) (simp add: concat_merge_front)
  next
    case False
    then have l: "8 \<le> length ?bs" "?n \<le> length ?bs"
      by auto
    from build_record_step [OF l, of depth] obtain pd1 where rest: "concat pd1 = drop ?n ?bs"
      and rec: "build_record (Suc depth) s =
        build_record depth (s\<lparr>pending_data := pd1, records := records s @ [take ?n ?bs]\<rparr>)"
      by blast
    let ?s1 = "s\<lparr>pending_data := pd1, records := records s @ [take ?n ?bs]\<rparr>"
    let ?F1 = "fst (spec_frames (drop ?n ?bs))"
    from Suc.IH [of ?s1] rest obtain pd' where
      rest': "concat pd' = concat (drop depth ?F1) @ snd (spec_frames (drop ?n ?bs))"
      and call: "build_record depth ?s1 =
        (if length ?F1 < depth
         then (Normal (), emit_records (?s1\<lparr>pending_data := pd',
                 records := records ?s1 @ ?F1\<rparr>))
         else (Throw RangeError_stack,
               ?s1\<lparr>pending_data := pd', records := records ?s1 @ take depth ?F1\<rparr>))"
      by auto
    have fr: "spec_frames ?bs = (take ?n ?bs # ?F1, snd (spec_frames (drop ?n ?bs)))"
      using l by (rule spec_frames_step)
    show ?thesis
      using rec call rest' fr
      by (intro exI [of _ pd']) simp
  qed
qed

lemma build_record_completion:
  "fst (build_record depth s) =
     (if length (fst (spec_frames (concat (pending_data s)))) < depth then Normal ()
      else Throw RangeError_stack)"
  using build_record_eq [of depth s] by auto

lemma build_record_state:
  "(snd (build_record depth s))\<lparr>pending_data := x\<rparr> =
     (if length (fst (spec_frames (concat (pending_data s)))) < depth
      then emit_records
             (s\<lparr>records := records s @ fst (spec_frames (concat (pending_data s)))\<rparr>)
      else s\<lparr>records := records s
             @ take depth (fst (spec_frames (concat (pending_data s))))\<rparr>)
       \<lparr>pending_data := x\<rparr>"
  using build_record_eq [of depth s] by (auto simp: emit_records_eq)

lemma build_record_pending:
  "concat (pending_data (snd (build_record depth s))) =
     concat (drop depth (fst (spec_frames (concat (pending_data s)))))
       @ snd (spec_frames (concat (pending_data s)))"
  using build_record_eq [of depth s] by (auto simp: emit_records_eq)

lemma write_data_unfold:
  "write_data depth data s =
     (case fst (build_record depth
            (s\<lparr>pending_data := pending_data s @ (case data of Some d \<Rightarrow> [d] | None \<Rightarrow> [])\<rparr>)) of
        Normal u \<Rightarrow>
          Normal (\<not> is_ending (snd (build_record depth
            (s\<lparr>pending_data := pending_data s @ (case data of Some d \<Rightarrow> [d] | None \<Rightarrow> [])\<rparr>))))
      | Throw e \<Rightarrow> Throw e,
      snd (build_record depth
        (s\<lparr>pending_data := pending_data s @ (case data of Some d \<Rightarrow> [d] | None \<Rightarrow> [])\<rparr>)))"
proof -
  let ?s = "s\<lparr>pending_data := pending_data s @ (case data of Some d \<Rightarrow> [d] | None \<Rightarrow> [])\<rparr>"
  obtain c s1 where b: "build_record depth ?s = (c, s1)"
    by (cases "build_record depth ?s") auto
  have "(case data of Some d \<Rightarrow> s\<lparr>pending_data := pending_data s @ [d]\<rparr> | None \<Rightarrow> s) = ?s"
    by (cases data) auto
  with b show ?thesis
    by (cases c) (simp_all add: write_data_def Let_def)
qed

lemma wire_pending:
  "concat (pending_data s) @ concat (case data of Some d \<Rightarrow> [d] | None \<Rightarrow> []) = wire data s"
  by (cases data) (simp_all add: wire_def data_bytes_def)

lemma write_data_pending:
  "concat (pending_data (snd (write_data depth data s))) =
     concat (drop depth (fst (spec_frames (wire data s)))) @ snd (spec_frames (wire data s))"
  by (simp add: write_data_unfold build_record_pending wire_pending)

lemma write_data_state:
  "(snd (write_data depth data s))\<lparr>pending_data := x\<rparr> =
     (if length (fst (spec_frames (wire data s))) < depth
      then emit_records (s\<lparr>records := records s @ fst (spec_frames (wire data s))\<rparr>)
      else s\<lparr>records := records s @ take depth (fst (spec_frames (wire data s)))\<rparr>)
       \<lparr>pending_data := x\<rparr>"
  by (simp add: write_data_unfold build_record_state wire_pending emit_records_eq)

lemma framer_field_eqs:
  assumes "a\<lparr>pending_data := x\<rparr> = b\<lparr>pending_data := x\<rparr>"
  shows "events a = events b" "records a = records b" "is_sending a = is_sending b"
    "is_ending a = is_ending b" "readable a = readable b" "writable a = writable b"
    "is_dead a = is_dead b" "source a = source b" "pipe_seen a = pipe_seen b"
proof -
  have "events (a\<lparr>pending_data := x\<rparr>) = events (b\<lparr>pending_data := x\<rparr>)"
    "records (a\<lparr>pending_data := x\<rparr>) = records (b\<lparr>pending_data := x\<rparr>)"
    "is_sending (a\<lparr>pending_data := x\<rparr>) = is_sending (b\<lparr>pending_data := x\<rparr>)"
    "is_ending (a\<lparr>pending_data := x\<rparr>) = is_ending (b\<lparr>pending_data := x\<rparr>)"
    "readable (a\<lparr>pending_data := x\<rparr>) = readable (b\<lparr>pending_data := x\<rparr>)"
    "writable (a\<lparr>pending_data := x\<rparr>) = writable (b\<lparr>pending_data := x\<rparr>)"
    "is_dead (a\<lparr>pending_data := x\<rparr>) = is_dead (b\<lparr>pending_data := x\<rparr>)"
    "source (a\<lparr>pending_data := x\<rparr>) = source (b\<lparr>pending_data := x\<rparr>)"
    "pipe_seen (a\<lparr>pending_data := x\<rparr>) = pipe_seen (b\<lparr>pending_data := x\<rparr>)"
    by (simp_all only: assms)
  then show "events a = events b" "records a = records b" "is_sending a = is_sending b"
    "is_ending a = is_ending b" "readable a = readable b" "writable a = writable b"
    "is_dead a = is_dead b" "source a = source b" "pipe_seen a = pipe_seen b"
    by simp_all
qed

lemmas write_data_fields = framer_field_eqs [OF write_data_state [where x = "[]"]]

lemma write_data_events:
  "events (snd (write_data depth data s)) =
     (if is_sending s \<and> length (fst (spec_frames (wire data s))) < depth
      then events s @ map Data (records s @ fst (spec_frames (wire data s)))
             @ (if is_ending s then [End] else [])
      else events s)"
  by (simp add: write_data_fields emit_records_eq)

lemma write_data_records:
  "records (snd (write_data depth data s)) =
     (if length (fst (spec_frames (wire data s))) < depth
      then (if is_sending s then [] else records s @ fst (spec_frames (wire data s)))
      else records s @ take depth (fst (spec_frames (wire data s))))"
  by (simp add: write_data_fields emit_records_eq)

lemma write_data_flags:
  "is_sending (snd (write_data depth data s)) = is_sending s"
  "is_ending (snd (write_data depth data s)) =
     (is_ending s \<and> \<not> (is_sending s \<and> length (fst (spec_frames (wire data s))) < depth))"
  "readable (snd (write_data depth data s)) =
     (readable s
      \<and> \<not> (is_sending s \<and> is_ending s \<and> length (fst (spec_frames (wire data s))) < depth))"
  "writable (snd (write_data depth data s)) = writable s"
  "is_dead (snd (write_data depth data s)) = is_dead s"
  "source (snd (write_data depth data s)) = source s"
  "pipe_seen (snd (write_data depth data s)) = pipe_seen s"
  by (auto simp add: write_data_fields emit_records_eq)

lemma write_data_completion:
  "fst (write_data depth data s) =
     (if length (fst (spec_frames (wire data s))) < depth
      then Normal (is_ending s \<longrightarrow> is_sending s)
      else Throw RangeError_stack)"
  by (auto simp add: write_data_unfold [of depth data s] build_record_completion wire_pending
      framer_field_eqs [OF build_record_state [where x = "[]"]] emit_records_eq)

lemma wire_update [simp]:
  "wire data (s\<lparr>is_ending := e\<rparr>) = wire data s"
  "wire data (s\<lparr>writable := w\<rparr>) = wire data s"
  "wire data (s\<lparr>is_sending := b\<rparr>) = wire data s"
  "wire data (s\<lparr>readable := r\<rparr>) = wire data s"
  "wire data (s\<lparr>is_dead := d\<rparr>) = wire data s"
  "wire data (s\<lparr>events := es\<rparr>) = wire data s"
  "wire data (s\<lparr>source := src\<rparr>) = wire data s"
  "wire data (s\<lparr>pipe_seen := p\<rparr>) = wire data s"
  "wire data (s\<lparr>records := rs\<rparr>) = wire data s"
  by (simp_all add: wire_def)

lemma end_stream_unfold:
  "end_stream depth data s =
     (case fst (write_data depth data (s\<lparr>is_ending := True, writable := False\<rparr>)) of
        Normal b \<Rightarrow>
          if pending_data (snd (write_data depth data
                (s\<lparr>is_ending := True, writable := False\<rparr>))) = []
          then Normal () else Throw ReferenceError
      | Throw e \<Rightarrow> Throw e,
      snd (write_data depth data (s\<lparr>is_ending := True, writable := False\<rparr>)))"
proof -
  let ?s = "s\<lparr>is_ending := True, writable := False\<rparr>"
  obtain c s1 where w: "write_data depth data ?s = (c, s1)"
    by (cases "write_data depth data ?s") auto
  then show ?thesis
    by (cases c) (simp_all add: end_stream_def Let_def)
qed

lemma end_stream_completion:
  "fst (end_stream depth data s) =
     (if length (fst (spec_frames (wire data s))) < depth
      then (if pending_data (snd (end_stream depth data s)) = [] then Normal ()
            else Throw ReferenceError)
      else Throw RangeError_stack)"
  by (simp add: end_stream_unfold write_data_completion)

lemma end_stream_events:
  "events (snd (end_stream depth data s)) =
     (if is_sending s \<and> length (fst (spec_frames (wire data s))) < depth
      then events s @ map Data (records s @ fst (spec_frames (wire data s))) @ [End]
      else events s)"
  by (simp add: end_stream_unfold write_data_events)

lemma end_stream_pending:
  "concat (pending_data (snd (end_stream depth data s))) =
     concat (drop depth (fst (spec_frames (wire data s)))) @ snd (spec_frames (wire data s))"
  by (simp add: end_stream_unfold write_data_pending)

lemma end_stream_records:
  "records (snd (end_stream depth data s)) =
     (if length (fst (spec_frames (wire data s))) < depth
      then (if is_sending s then [] else records s @ fst (spec_frames (wire data s)))
      else records s @ take depth (fst (spec_frames (wire data s))))"
  by (simp add: end_stream_unfold write_data_records)

lemma end_stream_flags:
  "is_sending (snd (end_stream depth data s)) = is_sending s"
  "is_ending (snd (end_stream depth data s)) =
     (\<not> (is_sending s \<and> length (fst (spec_frames (wire data s))) < depth))"
  "readable (snd (end_stream depth data s)) =
     (readable s \<and> \<not> (is_sending s \<and> length (fst (spec_frames (wire data s))) < depth))"
  "writable (snd (end_stream depth data s)) = False"
  "is_dead (snd (end_stream depth data s)) = is_dead s"
  "source (snd (end_stream depth data s)) = source s"
  "pipe_seen (snd (end_stream depth data s)) = pipe_seen s"
  by (simp_all add: end_stream_unfold write_data_flags)

lemma example_records_valid:
  "valid_record example_record_1" "valid_record example_record_2"
  "valid_record example_record_3"
  by (simp_all add: valid_record_def spec_record_length_def spec_content_length_def
      spec_padding_length_def example_record_1_def example_record_2_def example_record_3_def)


lemma FastCGIStream_fields:
  "readable FastCGIStream" "writable FastCGIStream" "\<not> is_ending FastCGIStream"
  "is_sending FastCGIStream" "\<not> is_dead FastCGIStream" "pending_data FastCGIStream = []"
  "records FastCGIStream = []" "source FastCGIStream = None" "\<not> pipe_seen FastCGIStream"
  "events FastCGIStream = []"
  by (simp_all add: FastCGIStream_def)

lemma pause_eq:
  "pause s = s\<lparr>is_sending := False,
                events := events s @ producer_call (source s) has_pause Source_pause\<rparr>"
  by (simp add: pause_def emit_def producer_call_def Let_def split: option.splits)

lemma resume_eq:
  "resume s =
     s\<lparr>is_sending := True, records := [],
       events := events s @ producer_call (source s) has_resume Source_resume
                  @ map Data (records s) @ (if is_ending s then [End] else []),
       is_ending := False,
       readable := (readable s \<and> \<not> is_ending s)\<rparr>"
  by (simp add: resume_def emit_def producer_call_def Let_def emit_records_eq
      split: option.splits)

lemma destroy_eq:
  "destroy s = s\<lparr>is_dead := True, is_ending := False, is_sending := False,
                  events := events s @ producer_call (source s) has_destroy Source_destroy\<rparr>"
  by (simp add: destroy_def emit_def producer_call_def Let_def split: option.splits)

lemma error_eq:
  "error er s = (False, s\<lparr>readable := False, writable := False,
                           events := events s @ [Error er]\<rparr>)"
  by (simp add: error_def emit_def)

lemma on_pipe_eq:
  "on_pipe src s =
     (if pipe_seen s
      then s\<lparr>readable := False, writable := False,
             events := events s @ [Error (Already_have_a_pipe_source (source s))]\<rparr>
      else s\<lparr>source := Some src, pipe_seen := True\<rparr>)"
  by (simp add: on_pipe_def error_eq)

lemma write_all_sending:
  assumes "is_sending s" and "\<not> is_ending s" and "records s = []"
    and "fst (spec_frames (concat (pending_data s))) = []"
    and "length (fst (spec_frames (concat (pending_data s) @ concat cs))) < depth"
  shows "events (write_all depth cs s) =
        events s @ map Data (fst (spec_frames (concat (pending_data s) @ concat cs)))
    \<and> concat (pending_data (write_all depth cs s)) =
        snd (spec_frames (concat (pending_data s) @ concat cs))
    \<and> records (write_all depth cs s) = [] \<and> is_sending (write_all depth cs s)
    \<and> \<not> is_ending (write_all depth cs s)"
  using assms
proof (induction cs arbitrary: s)
  case Nil
  then show ?case
    using spec_frames_lossless [of "concat (pending_data s)"]
    by (cases "spec_frames (concat (pending_data s))") auto
next
  case (Cons c cs)
  let ?s1 = "snd (write_data depth (Some c) s)"
  let ?p = "concat (pending_data s)"
  have w: "wire (Some c) s = ?p @ c"
    by (simp add: wire_def data_bytes_def)
  have ap: "spec_frames (?p @ c @ concat cs) =
      (fst (spec_frames (?p @ c)) @ fst (spec_frames (snd (spec_frames (?p @ c)) @ concat cs)),
       snd (spec_frames (snd (spec_frames (?p @ c)) @ concat cs)))"
    using spec_frames_append [of "?p @ c" "concat cs"] by simp
  from Cons.prems(5) have room: "length (fst (spec_frames (?p @ c))) < depth"
    and room': "length (fst (spec_frames (snd (spec_frames (?p @ c)) @ concat cs))) < depth"
    by (simp_all add: ap)
  have ev: "events ?s1 = events s @ map Data (fst (spec_frames (?p @ c)))"
    using Cons.prems room by (simp add: write_data_events w)
  have pd: "concat (pending_data ?s1) = snd (spec_frames (?p @ c))"
    using room by (simp add: write_data_pending w)
  have idle: "fst (spec_frames (concat (pending_data ?s1))) = []"
    by (simp add: pd spec_frames_rest)
  have fl: "is_sending ?s1" "\<not> is_ending ?s1" "records ?s1 = []"
    using Cons.prems room by (simp_all add: write_data_flags write_data_records w)
  from room' have room1: "length (fst (spec_frames (concat (pending_data ?s1) @ concat cs))) < depth"
    by (simp add: pd)
  from Cons.IH [OF fl idle room1] show ?case
    by (simp add: ev pd ap)
qed


lemma do_call_bound:
  "pipe_seen s \<Longrightarrow> source (do_call depth c s) = source s \<and> pipe_seen (do_call depth c s)"
  by (cases c)
    (simp_all add: write_data_flags end_stream_flags pause_eq resume_eq destroy_eq
      setEncoding_def destroySoon_def on_pipe_eq)

lemma run_bound:
  "pipe_seen s \<Longrightarrow> source (run depth calls s) = source s \<and> pipe_seen (run depth calls s)"
proof (induction calls arbitrary: s)
  case Nil
  then show ?case by simp
next
  case (Cons c calls)
  from do_call_bound [OF Cons.prems, of depth c] Cons.IH [of "do_call depth c s"] show ?case
    by simp
qed

lemma do_call_closed:
  "\<not> readable s \<Longrightarrow> \<not> writable s \<Longrightarrow>
     \<not> readable (do_call depth c s) \<and> \<not> writable (do_call depth c s)"
  by (cases c)
    (simp_all add: write_data_flags end_stream_flags pause_eq resume_eq destroy_eq
      setEncoding_def destroySoon_def on_pipe_eq)

lemma run_closed:
  "\<not> readable s \<Longrightarrow> \<not> writable s \<Longrightarrow>
     \<not> readable (run depth calls s) \<and> \<not> writable (run depth calls s)"
proof (induction calls arbitrary: s)
  case Nil
  then show ?case by simp
next
  case (Cons c calls)
  from do_call_closed [OF Cons.prems, of depth c] Cons.IH [of "do_call depth c s"] show ?case
    by simp
qed

lemma do_call_held:
  "c \<noteq> Resume \<Longrightarrow> \<not> is_sending s \<Longrightarrow>
     \<not> is_sending (do_call depth c s)
     \<and> filter is_delivery (events (do_call depth c s)) = filter is_delivery (events s)"
  by (cases c)
    (simp_all add: write_data_flags write_data_events end_stream_flags end_stream_events
      pause_eq destroy_eq setEncoding_def destroySoon_def on_pipe_eq producer_call_def
      split: option.splits)

lemma run_held:
  "Resume \<notin> set calls \<Longrightarrow> \<not> is_sending s \<Longrightarrow>
     \<not> is_sending (run depth calls s)
     \<and> filter is_delivery (events (run depth calls s)) = filter is_delivery (events s)"
proof (induction calls arbitrary: s)
  case Nil
  then show ?case by simp
next
  case (Cons c calls)
  from Cons.prems have c: "c \<noteq> Resume" and r: "Resume \<notin> set calls"
    by auto
  from do_call_held [OF c Cons.prems(2), of depth] Cons.IH [OF r, of "do_call depth c s"]
  show ?case
    by simp
qed

lemma do_call_dead: "is_dead s \<Longrightarrow> is_dead (do_call depth c s)"
  by (cases c)
    (simp_all add: write_data_flags end_stream_flags pause_eq resume_eq destroy_eq
      setEncoding_def destroySoon_def on_pipe_eq)

lemma run_dead: "is_dead s \<Longrightarrow> is_dead (run depth calls s)"
  by (induction calls arbitrary: s) (simp_all add: do_call_dead)

lemma do_call_ends:
  "ends_due (do_call depth c s) \<le> ends_due s + (if is_end_call c then 1 else 0)"
  by (cases c)
    (auto simp add: ends_due_def end_signals_def write_data_flags write_data_events
      end_stream_flags end_stream_events pause_eq resume_eq destroy_eq
      setEncoding_def destroySoon_def on_pipe_eq producer_call_def split: option.splits)

lemma run_ends:
  "ends_due (run depth calls s) \<le> ends_due s + length (filter is_end_call calls)"
proof (induction calls arbitrary: s)
  case Nil
  then show ?case by simp
next
  case (Cons c calls)
  from do_call_ends [of depth c s] Cons.IH [of "do_call depth c s"] show ?case
    by auto
qed

lemma example_stack_room_gt: "3 < example_stack_room"
  by (simp add: example_stack_room_def)



section \<open>The claims\<close>




text \<open>
  C2 (chunk-boundary independence). However the bytes of a valid record are cut into
  chunks (chunks of one byte and empty chunks included), writing the chunks one after
  the other to a fresh stream emits that record once, byte for byte, which is what
  writing it whole emits; nothing stays queued or pending. The stack has room for two
  nested calls of \<open>build_record\<close>: the one that copies the record and the one that
  drains.
\<close>

theorem C2_chunking_of_a_record:
  assumes "valid_record r" and "concat cs = r" and "1 < depth"
  shows "events (write_all depth cs FastCGIStream) = [Data r]
    \<and> events (write_all depth cs FastCGIStream)
        = events (snd (write_data depth (Some r) FastCGIStream))
    \<and> records (write_all depth cs FastCGIStream) = []
    \<and> concat (pending_data (write_all depth cs FastCGIStream)) = []"
proof -
  have fr: "spec_frames r = ([r], [])"
    using spec_frames_valid [OF assms(1), of "[]"] by (simp add: spec_frames_Nil)
  have "events (write_all depth cs FastCGIStream) =
        events FastCGIStream
          @ map Data (fst (spec_frames (concat (pending_data FastCGIStream) @ concat cs)))
    \<and> concat (pending_data (write_all depth cs FastCGIStream)) =
        snd (spec_frames (concat (pending_data FastCGIStream) @ concat cs))
    \<and> records (write_all depth cs FastCGIStream) = []
    \<and> is_sending (write_all depth cs FastCGIStream)
    \<and> \<not> is_ending (write_all depth cs FastCGIStream)"
    using assms(2,3)
    by (intro write_all_sending) (simp_all add: FastCGIStream_fields spec_frames_Nil fr)
  moreover have "wire (Some r) FastCGIStream = r"
    by (simp add: wire_def data_bytes_def FastCGIStream_fields)
  ultimately show ?thesis
    using assms(2,3) by (simp add: FastCGIStream_fields fr write_data_events)
qed

theorem C2_witness:
  "valid_record example_record_1
    \<and> concat (map (\<lambda>b. [b]) example_record_1) = example_record_1
    \<and> 1 < example_stack_room
    \<and> events (write_all example_stack_room (map (\<lambda>b. [b]) example_record_1) FastCGIStream)
        = [Data example_record_1]"
proof -
  have c: "concat (map (\<lambda>b. [b]) example_record_1) = example_record_1"
    by (simp add: example_record_1_def)
  have r: "1 < example_stack_room"
    using example_stack_room_gt by simp
  from C2_chunking_of_a_record [OF example_records_valid(1) c r] c r example_records_valid(1)
  show ?thesis
    by simp
qed

text \<open>
  C3, the claim as it stands fails: the \<open>end\<close> event is not emitted once only. A
  second call of \<open>end\<close> sets ending again, and the drain it runs emits a second \<open>end\<close>
  event.
\<close>

theorem C3_counterexample:
  "events (snd (end_stream example_stack_room None
      (snd (end_stream example_stack_room None FastCGIStream)))) = [End, End]"
proof -
  let ?s = "snd (end_stream example_stack_room None FastCGIStream)"
  have w: "wire None FastCGIStream = []"
    by (simp add: wire_def data_bytes_def FastCGIStream_fields)
  have r: "0 < example_stack_room"
    using example_stack_room_gt by simp
  have s: "events ?s = [End]" "is_sending ?s" "records ?s = []"
    "concat (pending_data ?s) = []"
    using r
    by (simp_all add: end_stream_events end_stream_flags end_stream_records
        end_stream_pending w spec_frames_Nil FastCGIStream_fields)
  have w': "wire None ?s = []"
    by (simp add: wire_def data_bytes_def s)
  show ?thesis
    using r by (simp add: end_stream_events [of _ _ ?s] w' spec_frames_Nil s)
qed

text \<open>
  C3, amended (drain). While sending is off, \<open>emit_records\<close> changes nothing. While it
  is on, it delivers the queued records as \<open>data\<close> events in queue order and empties
  the queue; then, if ending is set, it emits one \<open>end\<close> event after them, clears ending
  and clears readable. So one drain emits the \<open>end\<close> event at most once, never while
  sending is off and never before a record that is queued, and a second drain right
  after emits nothing more. The queue order is the order of the bytes on the input:
  \<open>end\<close> queues the records of the pending bytes behind the ones already queued, and
  (with room on the stack) all of them precede its \<open>end\<close> event. Over a sequence of
  calls the \<open>end\<close> event is emitted at most once for each call of \<open>end\<close> (and once
  more if ending was set at the start), not once overall.
\<close>

theorem C3_emit_records_fifo_then_end:
  "emit_records s =
     (if is_sending s
      then s\<lparr>records := [],
             events := events s @ map Data (records s) @ (if is_ending s then [End] else []),
             is_ending := False,
             readable := (readable s \<and> \<not> is_ending s)\<rparr>
      else s)
   \<and> emit_records (emit_records s) = emit_records s
   \<and> events (snd (end_stream depth data s)) =
     (if is_sending s \<and> length (fst (spec_frames (wire data s))) < depth
      then events s @ map Data (records s @ fst (spec_frames (wire data s))) @ [End]
      else events s)
   \<and> end_signals (run depth calls s)
       \<le> end_signals s + (if is_ending s then 1 else 0) + length (filter is_end_call calls)"
proof -
  have "end_signals (run depth calls s) \<le> ends_due (run depth calls s)"
    by (simp add: ends_due_def)
  also have "\<dots> \<le> ends_due s + length (filter is_end_call calls)"
    by (rule run_ends)
  finally have "end_signals (run depth calls s)
       \<le> end_signals s + (if is_ending s then 1 else 0) + length (filter is_end_call calls)"
    by (simp add: ends_due_def)
  then show ?thesis
    by (simp add: emit_records_eq end_stream_events)
qed




text \<open>
  C5, the claim as it stands fails: after a second \<open>pipe\<close> event has gone through the
  error path, a write of a complete record returns true and the record is delivered as a
  \<open>data\<close> event behind the \<open>error\<close> event.
\<close>

theorem C5_counterexample:
  "fst (write_data example_stack_room (Some example_record_2)
          (on_pipe example_producer_2 (on_pipe example_producer_1 FastCGIStream)))
      = Normal True
    \<and> events (snd (write_data example_stack_room (Some example_record_2)
          (on_pipe example_producer_2 (on_pipe example_producer_1 FastCGIStream))))
      = [Error (Already_have_a_pipe_source (Some example_producer_1)),
         Data example_record_2]"
proof -
  let ?s = "on_pipe example_producer_2 (on_pipe example_producer_1 FastCGIStream)"
  have s: "is_sending ?s" "\<not> is_ending ?s" "records ?s = []" "pending_data ?s = []"
    "events ?s = [Error (Already_have_a_pipe_source (Some example_producer_1))]"
    by (simp_all add: on_pipe_eq FastCGIStream_fields)
  have r: "Suc 0 < example_stack_room"
    using example_stack_room_gt by simp
  have "spec_frames example_record_2 = ([example_record_2], [])"
    using spec_frames_valid [OF example_records_valid(2), of "[]"]
    by (simp add: spec_frames_Nil)
  then show ?thesis
    using r by (simp add: write_data_completion write_data_events s wire_def data_bytes_def)
qed

text \<open>
  C5, amended. The error path clears \<open>readable\<close> and \<open>writable\<close>, emits exactly one
  \<open>error\<close> event and returns false; the two flags stay cleared whatever is called
  afterwards. No method reads them: a later write returns what it would have returned
  without the error, and emits what it would have emitted.
\<close>

theorem C5_error_path_closes_flags_only:
  "error er s = (False, s\<lparr>readable := False, writable := False,
                           events := events s @ [Error er]\<rparr>)
   \<and> \<not> readable (run depth calls (snd (error er s)))
   \<and> \<not> writable (run depth calls (snd (error er s)))
   \<and> fst (write_data depth data (snd (error er s))) = fst (write_data depth data s)
   \<and> events (snd (write_data depth data (snd (error er s)))) =
       events s @ Error er
         # drop (length (events s)) (events (snd (write_data depth data s)))"
proof -
  let ?s = "snd (error er s)"
  have f: "\<not> readable ?s" "\<not> writable ?s"
    by (simp_all add: error_eq)
  have w: "wire data ?s = wire data s"
    by (simp add: error_eq)
  from run_closed [OF f, of depth calls] show ?thesis
    by (simp add: write_data_completion write_data_events w) (simp add: error_eq)
qed

text \<open>
  C6 (the header is read from one chunk). After the merge loop, whenever at least 8
  bytes are pending, the first chunk alone holds at least 8 bytes, so every read of
  \<open>get_header\<close> is in bounds and the header decoded is the one of the first 8 pending
  bytes. No read of \<open>build_record\<close> ever throws: the one exception it can end in is
  the RangeError of the call stack, when the stack has no room for one nested call per
  complete record pending and one more.
\<close>

theorem C6_header_in_first_chunk:
  "(8 \<le> pending_bytes_of (merge_front (pending_data s)) \<longrightarrow>
      (\<exists>first others h. merge_front (pending_data s) = first # others
          \<and> 8 \<le> length first
          \<and> get_header first = Normal h
          \<and> take 8 first = take 8 (concat (pending_data s))))
   \<and> fst (build_record depth s) =
       (if length (fst (spec_frames (concat (pending_data s)))) < depth then Normal ()
        else Throw RangeError_stack)"
proof -
  have "\<exists>first others h. merge_front (pending_data s) = first # others
          \<and> 8 \<le> length first
          \<and> get_header first = Normal h
          \<and> take 8 first = take 8 (concat (pending_data s))"
    if "8 \<le> pending_bytes_of (merge_front (pending_data s))"
  proof -
    from that have "8 \<le> length (concat (pending_data s))"
      by (simp add: pending_bytes_of_concat concat_merge_front)
    from merge_front_header [OF this] obtain first others
      where mf: "merge_front (pending_data s) = first # others" and len: "8 \<le> length first"
      by blast
    have "concat (pending_data s) = first @ concat others"
      using concat_merge_front [of "pending_data s"] mf by simp
    with mf len show ?thesis
      by (simp add: get_header_eq)
  qed
  then show ?thesis
    by (simp add: build_record_completion)
qed

theorem C6_witness:
  "8 \<le> pending_bytes_of (merge_front [take 5 example_record_1, drop 5 example_record_1])
    \<and> merge_front [take 5 example_record_1, drop 5 example_record_1] = [example_record_1]
    \<and> (\<exists>h. get_header example_record_1 = Normal h)"
proof -
  let ?pd = "[take 5 example_record_1, drop 5 example_record_1]"
  have m: "merge_front ?pd = [example_record_1]"
    by (simp add: merge_front.simps [of "[a, b]" for a b] merge_front.simps [of "[a]" for a]
        merge_cond_def merge_step_def example_record_1_def)
  have b: "8 \<le> pending_bytes_of (merge_front ?pd)"
    by (simp add: pending_bytes_of_concat concat_merge_front example_record_1_def)
  from C6_header_in_first_chunk [of "FastCGIStream\<lparr>pending_data := ?pd\<rparr>" 0] b
  obtain first others h where "merge_front ?pd = first # others"
    and "get_header first = Normal h"
    by auto
  with m have "\<exists>h. get_header example_record_1 = Normal h"
    by auto
  with m b show ?thesis
    by (intro conjI)
qed

text \<open>
  C7 (leftover bytes at \<open>end\<close>). \<open>end\<close> never emits an \<open>error\<close> event. With room on the
  stack for its write, the bytes left pending after that write are the ones that do not
  form a complete record; when any chunk is left pending, \<open>end\<close> does not return:
  evaluating the undeclared variable \<open>self\<close> throws a ReferenceError to the caller of
  \<open>end\<close>, after the \<open>end\<close> event (if sending) has been emitted. That exception is the
  only sign of the leftover bytes.
\<close>

theorem C7_end_with_leftover_bytes:
  "filter is_error_event (events (snd (end_stream depth data s)))
      = filter is_error_event (events s)
   \<and> (length (fst (spec_frames (wire data s))) < depth \<longrightarrow>
        concat (pending_data (snd (end_stream depth data s))) = snd (spec_frames (wire data s))
        \<and> fst (end_stream depth data s) =
            (if pending_data (snd (end_stream depth data s)) = [] then Normal ()
             else Throw ReferenceError)
        \<and> (snd (spec_frames (wire data s)) \<noteq> [] \<longrightarrow>
             fst (end_stream depth data s) = Throw ReferenceError))"
proof -
  have "concat (pending_data (snd (end_stream depth data s))) = snd (spec_frames (wire data s))
        \<and> fst (end_stream depth data s) =
            (if pending_data (snd (end_stream depth data s)) = [] then Normal ()
             else Throw ReferenceError)
        \<and> (snd (spec_frames (wire data s)) \<noteq> [] \<longrightarrow>
             fst (end_stream depth data s) = Throw ReferenceError)"
    if room: "length (fst (spec_frames (wire data s))) < depth"
  proof -
    have p: "concat (pending_data (snd (end_stream depth data s)))
        = snd (spec_frames (wire data s))"
      using room by (simp add: end_stream_pending)
    have c: "fst (end_stream depth data s) =
        (if pending_data (snd (end_stream depth data s)) = [] then Normal ()
         else Throw ReferenceError)"
      using room by (simp add: end_stream_completion)
    have "pending_data (snd (end_stream depth data s)) \<noteq> []"
      if "snd (spec_frames (wire data s)) \<noteq> []"
      using that p by auto
    with p c show ?thesis
      by simp
  qed
  moreover have "filter is_error_event (events (snd (end_stream depth data s)))
      = filter is_error_event (events s)"
    by (simp add: end_stream_events)
  ultimately show ?thesis
    by blast
qed

theorem C7_witness:
  "length (fst (spec_frames (wire (Some (take 5 example_record_1)) FastCGIStream)))
      < example_stack_room
    \<and> snd (spec_frames (wire (Some (take 5 example_record_1)) FastCGIStream)) \<noteq> []
    \<and> fst (end_stream example_stack_room (Some (take 5 example_record_1)) FastCGIStream)
        = Throw ReferenceError
    \<and> filter is_error_event
        (events (snd (end_stream example_stack_room (Some (take 5 example_record_1))
           FastCGIStream))) = []"
proof -
  have f: "spec_frames (wire (Some (take 5 example_record_1)) FastCGIStream)
      = ([], take 5 example_record_1)"
    by (simp add: wire_def data_bytes_def FastCGIStream_fields spec_frames_short
        example_record_1_def)
  have r: "length (fst (spec_frames (wire (Some (take 5 example_record_1)) FastCGIStream)))
      < example_stack_room"
    using example_stack_room_gt by (simp add: f)
  have l: "snd (spec_frames (wire (Some (take 5 example_record_1)) FastCGIStream)) \<noteq> []"
    by (simp only: f snd_conv) (simp add: example_record_1_def)
  note t = C7_end_with_leftover_bytes
    [of example_stack_room "Some (take 5 example_record_1)" FastCGIStream]
  from t r l
  have a: "fst (end_stream example_stack_room (Some (take 5 example_record_1)) FastCGIStream)
      = Throw ReferenceError"
    by blast
  from t have b: "filter is_error_event
        (events (snd (end_stream example_stack_room (Some (take 5 example_record_1))
           FastCGIStream))) =
      filter is_error_event (events FastCGIStream)"
    by blast
  show ?thesis
    by (simp only: r l a b FastCGIStream_fields) simp
qed

text \<open>
  C8 (one producer). The first \<open>pipe\<close> event stores its producer in \<open>source\<close>. From then
  on, whatever is called, \<open>source\<close> stays that producer, and every further \<open>pipe\<close>
  event changes nothing but \<open>readable\<close> and \<open>writable\<close>, which it clears, and emits one
  \<open>error\<close> event whose \<open>source\<close> property is the producer bound first.
\<close>

theorem C8_first_producer_stays_bound:
  assumes "\<not> pipe_seen s"
  shows "source (on_pipe p s) = Some p
    \<and> source (run depth calls (on_pipe p s)) = Some p
    \<and> on_pipe q (run depth calls (on_pipe p s)) =
        (run depth calls (on_pipe p s))
          \<lparr>readable := False, writable := False,
           events := events (run depth calls (on_pipe p s))
                       @ [Error (Already_have_a_pipe_source (Some p))]\<rparr>"
proof -
  from assms have b: "pipe_seen (on_pipe p s)" "source (on_pipe p s) = Some p"
    by (simp_all add: on_pipe_eq)
  from run_bound [OF b(1), of depth calls] b(2)
  have "source (run depth calls (on_pipe p s)) = Some p"
    "pipe_seen (run depth calls (on_pipe p s))"
    by simp_all
  with b(2) show ?thesis
    by (simp add: on_pipe_eq [of q])
qed

theorem C8_witness:
  "\<not> pipe_seen FastCGIStream
    \<and> source (on_pipe example_producer_2 (on_pipe example_producer_1 FastCGIStream))
        = Some example_producer_1
    \<and> events (on_pipe example_producer_2 (on_pipe example_producer_1 FastCGIStream))
        = [Error (Already_have_a_pipe_source (Some example_producer_1))]"
proof -
  have n: "\<not> pipe_seen FastCGIStream"
    by (simp add: FastCGIStream_fields)
  note t = C8_first_producer_stays_bound
    [OF n, of example_producer_1 example_stack_room "[]" example_producer_2]
  from t have a: "on_pipe example_producer_2 (on_pipe example_producer_1 FastCGIStream) =
      (on_pipe example_producer_1 FastCGIStream)
        \<lparr>readable := False, writable := False,
         events := events (on_pipe example_producer_1 FastCGIStream)
                     @ [Error (Already_have_a_pipe_source (Some example_producer_1))]\<rparr>"
    by simp
  from t have b: "source (on_pipe example_producer_1 FastCGIStream) = Some example_producer_1"
    by blast
  have c: "events (on_pipe example_producer_1 FastCGIStream) = []"
    by (simp add: on_pipe_eq FastCGIStream_fields)
  show ?thesis
    by (simp only: a) (simp add: n b c)
qed

text \<open>
  C9, the claim as it stands fails: after \<open>destroy\<close> a write is accepted (it returns
  true and the record is queued), and \<open>resume\<close> then delivers the record.
\<close>

theorem C9_counterexample:
  "fst (write_data example_stack_room (Some example_record_2) (destroy FastCGIStream))
      = Normal True
    \<and> records (snd (write_data example_stack_room (Some example_record_2)
          (destroy FastCGIStream))) = [example_record_2]
    \<and> is_dead (resume (snd (write_data example_stack_room (Some example_record_2)
          (destroy FastCGIStream))))
    \<and> events (resume (snd (write_data example_stack_room (Some example_record_2)
          (destroy FastCGIStream)))) = [Data example_record_2]"
proof -
  let ?s = "destroy FastCGIStream"
  have s: "\<not> is_sending ?s" "\<not> is_ending ?s" "records ?s = []" "pending_data ?s = []"
    "events ?s = []" "is_dead ?s" "source ?s = None"
    by (simp_all add: destroy_eq FastCGIStream_fields producer_call_def)
  have r: "Suc 0 < example_stack_room"
    using example_stack_room_gt by simp
  have "spec_frames example_record_2 = ([example_record_2], [])"
    using spec_frames_valid [OF example_records_valid(2), of "[]"]
    by (simp add: spec_frames_Nil)
  then show ?thesis
    using r
    by (simp add: write_data_completion write_data_events write_data_records
        write_data_flags resume_eq s wire_def data_bytes_def producer_call_def)
qed

text \<open>
  C9, amended. \<open>destroy\<close> sets \<open>is_dead\<close>, clears ending and sending, and calls the
  producer's \<open>destroy\<close> exactly when a producer is attached and has one. Afterwards a
  write is still accepted: with room on the stack for it, it returns true and queues
  the records of the bytes written. As long as \<open>resume\<close> is not called, whatever else
  is called, sending stays off and neither a \<open>data\<close> nor an \<open>end\<close> event is emitted.
\<close>

theorem C9_destroy_holds_until_resume:
  "destroy s = s\<lparr>is_dead := True, is_ending := False, is_sending := False,
                  events := events s @ producer_call (source s) has_destroy Source_destroy\<rparr>
   \<and> (length (fst (spec_frames (wire data s))) < depth \<longrightarrow>
        fst (write_data depth data (destroy s)) = Normal True
        \<and> records (snd (write_data depth data (destroy s)))
            = records s @ fst (spec_frames (wire data s)))
   \<and> (Resume \<notin> set calls \<longrightarrow>
        \<not> is_sending (run depth calls (destroy s))
        \<and> is_dead (run depth calls (destroy s))
        \<and> filter is_delivery (events (run depth calls (destroy s)))
            = filter is_delivery (events s))"
proof -
  have d: "\<not> is_sending (destroy s)" "is_dead (destroy s)" "\<not> is_ending (destroy s)"
    "records (destroy s) = records s" "wire data (destroy s) = wire data s"
    "filter is_delivery (events (destroy s)) = filter is_delivery (events s)"
    by (simp_all add: destroy_eq producer_call_def split: option.splits)
  have "\<not> is_sending (run depth calls (destroy s))
        \<and> is_dead (run depth calls (destroy s))
        \<and> filter is_delivery (events (run depth calls (destroy s)))
            = filter is_delivery (events s)"
    if "Resume \<notin> set calls"
    using run_held [OF that d(1), of depth] run_dead [OF d(2), of depth calls] d by simp
  then show ?thesis
    by (simp add: write_data_completion write_data_records d) (simp add: destroy_eq)
qed

theorem C9_witness:
  "Resume \<notin> set [Write (Some example_record_1), End_stream None, Pause,
                   Pipe example_producer_1]
    \<and> filter is_delivery
        (events (run example_stack_room
           [Write (Some example_record_1), End_stream None, Pause,
            Pipe example_producer_1] (destroy FastCGIStream))) = []
    \<and> length (fst (spec_frames (wire (Some example_record_1) FastCGIStream)))
        < example_stack_room
    \<and> fst (write_data example_stack_room (Some example_record_1) (destroy FastCGIStream))
        = Normal True"
proof -
  let ?calls = "[Write (Some example_record_1), End_stream None, Pause,
                 Pipe example_producer_1]"
  have n: "Resume \<notin> set ?calls"
    by simp
  have f: "spec_frames (wire (Some example_record_1) FastCGIStream) = ([example_record_1], [])"
    using spec_frames_valid [OF example_records_valid(1), of "[]"]
    by (simp add: spec_frames_Nil wire_def data_bytes_def FastCGIStream_fields)
  have r: "length (fst (spec_frames (wire (Some example_record_1) FastCGIStream)))
      < example_stack_room"
    using example_stack_room_gt by (simp add: f)
  note t = C9_destroy_holds_until_resume
    [of FastCGIStream "Some example_record_1" example_stack_room ?calls]
  from t n
  have a: "filter is_delivery (events (run example_stack_room ?calls (destroy FastCGIStream)))
      = filter is_delivery (events FastCGIStream)"
    by blast
  from t r
  have b: "fst (write_data example_stack_room (Some example_record_1) (destroy FastCGIStream))
      = Normal True"
    by blast
  show ?thesis
    by (simp only: a b r FastCGIStream_fields) simp
qed




end
